theory Spec2Isabelle
  imports Main "HOL-Library.Sublist"
begin

unbundle bit_operations_syntax

section \<open>Values loaded from the template\<close>

text \<open>
  \<open>yaml.safe_load\<close> hands \<open>validate_cidr_ranges\<close> a tree of Python values. The model
  keeps the kinds the function can tell apart: \<open>None\<close>, booleans, integers, strings, lists
  and dicts. A dict is an association list in insertion order (the order \<open>items()\<close>
  iterates in); keys are strings. Python integers are unbounded, so they are \<open>int\<close>.
  A Python string is a \<open>string\<close>; a character outside ASCII is kept as its bytes, none of
  which is a digit, a dot or a slash.
\<close>

datatype yaml =
    YNull
  | YBool bool
  | YInt int
  | YStr string
  | YList "yaml list"
  | YDict "(string \<times> yaml) list"

text \<open>Truth value of a Python object, as \<open>if cidr:\<close> reads it.\<close>

fun truthy :: "yaml \<Rightarrow> bool" where
  "truthy YNull = False"
| "truthy (YBool b) = b"
| "truthy (YInt n) = (n \<noteq> 0)"
| "truthy (YStr s) = (s \<noteq> [])"
| "truthy (YList xs) = (xs \<noteq> [])"
| "truthy (YDict kvs) = (kvs \<noteq> [])"

datatype exn = AttributeError | ValueError | AddressValueError | NetmaskValueError

text \<open>\<open>AddressValueError\<close> and \<open>NetmaskValueError\<close> are subclasses of \<open>ValueError\<close>.\<close>

fun is_ValueError :: "exn \<Rightarrow> bool" where
  "is_ValueError AttributeError = False"
| "is_ValueError _ = True"

text \<open>\<open>obj.get(key, default)\<close>: only a dict has the method.\<close>

fun get :: "yaml \<Rightarrow> string \<Rightarrow> yaml \<Rightarrow> exn + yaml" where
  "get (YDict kvs) k d = (case map_of kvs k of None \<Rightarrow> Inr d | Some v \<Rightarrow> Inr v)"
| "get _ k d = Inl AttributeError"

section \<open>The \<open>ipaddress\<close> module, as far as \<open>IPv4Network\<close> and \<open>overlaps\<close> reach\<close>

subsection \<open>Strings\<close>

text \<open>\<open>s.split(c)\<close> for a separator of one character: never an empty list.\<close>

fun split :: "char \<Rightarrow> string \<Rightarrow> string list" where
  "split c [] = [[]]"
| "split c (x # xs) =
     (if x = c then [] # split c xs
      else (case split c xs of [] \<Rightarrow> [[x]] | w # ws \<Rightarrow> (x # w) # ws))"

definition is_digit :: "char \<Rightarrow> bool" where
  "is_digit c = (c \<in> set ''0123456789'')"

text \<open>\<open>s.isascii() and s.isdigit()\<close>: false on the empty string.\<close>

definition isdigit :: "string \<Rightarrow> bool" where
  "isdigit s = (s \<noteq> [] \<and> list_all is_digit s)"

text \<open>\<open>int(s, 10)\<close> on a string of decimal digits.\<close>

definition int_of_digits :: "string \<Rightarrow> int" where
  "int_of_digits s = foldl (\<lambda>acc c. 10 * acc + (int (of_char c) - 48)) 0 s"

subsection \<open>Integers\<close>

definition ALL_ONES :: int where
  "ALL_ONES = 2 ^ 32 - 1"

definition max_prefixlen :: int where
  "max_prefixlen = 32"

text \<open>\<open>n.bit_length()\<close>: the number of bits of the absolute value.\<close>

function bit_length :: "int \<Rightarrow> int" where
  "bit_length n = (if n = 0 then 0 else 1 + bit_length (\<bar>n\<bar> div 2))"
  by pat_completeness auto
termination
  by (relation "measure (\<lambda>n. nat \<bar>n\<bar>)") auto

declare bit_length.simps [simp del]

definition count_righthand_zero_bits :: "int \<Rightarrow> int \<Rightarrow> int" where
  "count_righthand_zero_bits number bits =
     (if number = 0 then bits
      else min bits (bit_length (NOT number AND (number - 1))))"

text \<open>The shift counts below are prefix lengths or zero counts, between 0 and 32.\<close>

definition ip_int_from_prefix :: "int \<Rightarrow> int" where
  "ip_int_from_prefix prefixlen = ALL_ONES XOR drop_bit (nat prefixlen) ALL_ONES"

definition prefix_from_ip_int :: "int \<Rightarrow> exn + int" where
  "prefix_from_ip_int ip_int =
     (let trailing_zeroes = count_righthand_zero_bits ip_int max_prefixlen;
          prefixlen = max_prefixlen - trailing_zeroes;
          leading_ones = drop_bit (nat trailing_zeroes) ip_int;
          all_ones = push_bit (nat prefixlen) 1 - 1
      in if leading_ones \<noteq> all_ones then Inl ValueError else Inr prefixlen)"

subsection \<open>Addresses\<close>

definition parse_octet :: "string \<Rightarrow> exn + int" where
  "parse_octet octet_str =
     (if octet_str = [] then Inl ValueError
      else if \<not> isdigit octet_str then Inl ValueError
      else if length octet_str > 3 then Inl ValueError
      else if octet_str \<noteq> ''0'' \<and> hd octet_str = CHR ''0'' then Inl ValueError
      else let octet_int = int_of_digits octet_str
           in if octet_int > 255 then Inl ValueError else Inr octet_int)"

text \<open>
  \<open>int.from_bytes(map(_parse_octet, octets), 'big')\<close>: the octets are parsed from the
  left, and the first \<open>ValueError\<close> ends the conversion.
\<close>

fun from_bytes :: "int \<Rightarrow> string list \<Rightarrow> exn + int" where
  "from_bytes acc [] = Inr acc"
| "from_bytes acc (s # ss) =
     (case parse_octet s of
        Inl e \<Rightarrow> Inl e
      | Inr b \<Rightarrow> from_bytes (256 * acc + b) ss)"

definition ip_int_from_string :: "string \<Rightarrow> exn + int" where
  "ip_int_from_string ip_str =
     (if ip_str = [] then Inl AddressValueError
      else let octets = split CHR ''.'' ip_str
           in if length octets \<noteq> 4 then Inl AddressValueError
              else (case from_bytes 0 octets of
                      Inl e \<Rightarrow> Inl AddressValueError
                    | Inr n \<Rightarrow> Inr n))"

definition check_int_address :: "int \<Rightarrow> exn + unit" where
  "check_int_address address =
     (if address < 0 then Inl AddressValueError
      else if address > ALL_ONES then Inl AddressValueError
      else Inr ())"

text \<open>The two arguments \<open>IPv4Network\<close> passes on: an integer, or a piece of a string.\<close>

datatype arg = ArgInt int | ArgStr string

fun IPv4Address :: "arg \<Rightarrow> exn + int" where
  "IPv4Address (ArgInt address) =
     (case check_int_address address of Inl e \<Rightarrow> Inl e | Inr _ \<Rightarrow> Inr address)"
| "IPv4Address (ArgStr addr_str) =
     (if CHR ''/'' \<in> set addr_str then Inl AddressValueError
      else ip_int_from_string addr_str)"

subsection \<open>Netmasks\<close>

definition prefix_from_prefix_string :: "string \<Rightarrow> exn + int" where
  "prefix_from_prefix_string prefixlen_str =
     (if \<not> isdigit prefixlen_str then Inl NetmaskValueError
      else let prefixlen = int_of_digits prefixlen_str
           in if \<not> (0 \<le> prefixlen \<and> prefixlen \<le> max_prefixlen) then Inl NetmaskValueError
              else Inr prefixlen)"

definition prefix_from_ip_string :: "string \<Rightarrow> exn + int" where
  "prefix_from_ip_string ip_str =
     (case ip_int_from_string ip_str of
        Inl e \<Rightarrow> Inl NetmaskValueError
      | Inr ip_int \<Rightarrow>
          (case prefix_from_ip_int ip_int of
             Inr p \<Rightarrow> Inr p
           | Inl e \<Rightarrow>
               (case prefix_from_ip_int (ip_int XOR ALL_ONES) of
                  Inr p \<Rightarrow> Inr p
                | Inl e' \<Rightarrow> Inl NetmaskValueError)))"

text \<open>
  \<open>_make_netmask\<close> returns the pair (netmask, prefix length); its cache only remembers
  results, so it is left out.
\<close>

fun make_netmask :: "arg \<Rightarrow> exn + (int \<times> int)" where
  "make_netmask (ArgInt prefixlen) =
     (if \<not> (0 \<le> prefixlen \<and> prefixlen \<le> max_prefixlen) then Inl NetmaskValueError
      else Inr (ip_int_from_prefix prefixlen, prefixlen))"
| "make_netmask (ArgStr s) =
     (case prefix_from_prefix_string s of
        Inr prefixlen \<Rightarrow> Inr (ip_int_from_prefix prefixlen, prefixlen)
      | Inl e \<Rightarrow>
          (case prefix_from_ip_string s of
             Inr prefixlen \<Rightarrow> Inr (ip_int_from_prefix prefixlen, prefixlen)
           | Inl e' \<Rightarrow> Inl e'))"

subsection \<open>Networks\<close>

record IPv4Network =
  network_address :: int
  netmask :: int
  prefixlen :: int

text \<open>
  \<open>_split_addr_prefix\<close>. A \<open>bool\<close> is an \<open>int\<close> in Python. Any other value goes through
  \<open>str()\<close>: \<open>str(None)\<close> is \<open>None\<close>; the text of a list starts with a bracket and that of
  a dict with a brace, so its first piece is never four octets of digits and the
  constructor raises \<open>AddressValueError\<close> whatever follows.
\<close>

fun split_addr_prefix :: "yaml \<Rightarrow> exn + (arg \<times> arg)" where
  "split_addr_prefix (YInt n) = Inr (ArgInt n, ArgInt max_prefixlen)"
| "split_addr_prefix (YBool b) = Inr (ArgInt (if b then 1 else 0), ArgInt max_prefixlen)"
| "split_addr_prefix (YStr s) =
     (case split CHR ''/'' s of
        [a] \<Rightarrow> Inr (ArgStr a, ArgInt max_prefixlen)
      | [a, m] \<Rightarrow> Inr (ArgStr a, ArgStr m)
      | _ \<Rightarrow> Inl AddressValueError)"
| "split_addr_prefix YNull = Inr (ArgStr ''None'', ArgInt max_prefixlen)"
| "split_addr_prefix (YList xs) = Inl AddressValueError"
| "split_addr_prefix (YDict kvs) = Inl AddressValueError"

text \<open>\<open>IPv4Network(address)\<close>, with \<open>strict=True\<close> as the default has it.\<close>

definition IPv4Network :: "yaml \<Rightarrow> exn + IPv4Network" where
  "IPv4Network address =
     (case split_addr_prefix address of
        Inl e \<Rightarrow> Inl e
      | Inr (addr, netmask_arg) \<Rightarrow>
          (case IPv4Address addr of
             Inl e \<Rightarrow> Inl e
           | Inr packed \<Rightarrow>
               (case make_netmask netmask_arg of
                  Inl e \<Rightarrow> Inl e
                | Inr (nm, plen) \<Rightarrow>
                    if packed AND nm \<noteq> packed then Inl ValueError
                    else Inr \<lparr>network_address = packed, netmask = nm, prefixlen = plen\<rparr>)))"

definition hostmask :: "IPv4Network \<Rightarrow> int" where
  "hostmask net = netmask net XOR ALL_ONES"

definition broadcast_address :: "IPv4Network \<Rightarrow> int" where
  "broadcast_address net = network_address net OR hostmask net"

text \<open>\<open>address in net\<close>, for an address of the same version.\<close>

definition contains :: "IPv4Network \<Rightarrow> int \<Rightarrow> bool" where
  "contains net ip = (ip AND netmask net = network_address net)"

definition overlaps :: "IPv4Network \<Rightarrow> IPv4Network \<Rightarrow> bool" where
  "overlaps self other =
     (contains other (network_address self) \<or>
      (contains other (broadcast_address self) \<or>
       (contains self (network_address other) \<or>
        contains self (broadcast_address other))))"

section \<open>\<open>validate_cidr_ranges\<close>\<close>

text \<open>The lines the function prints, with the values they are formatted from.\<close>

datatype message =
    Validating
  | Invalid_CIDR string yaml
  | CIDR_overlap string IPv4Network string IPv4Network
  | Valid_non_overlapping

text \<open>How a loop ends: an exception escapes, the function returns, or the loop runs out.\<close>

datatype 'a loop = Raised exn | Returned bool message | Finished 'a

text \<open>
  The first loop, over \<open>resources.items()\<close>, with \<open>subnet_cidrs\<close> as the accumulator.
\<close>

fun collect :: "(string \<times> yaml) list \<Rightarrow> (string \<times> IPv4Network) list
    \<Rightarrow> (string \<times> IPv4Network) list loop" where
  "collect [] subnet_cidrs = Finished subnet_cidrs"
| "collect ((resource_name, resource) # rest) subnet_cidrs =
     (case get resource ''Type'' YNull of
        Inl e \<Rightarrow> Raised e
      | Inr ty \<Rightarrow>
          if ty = YStr ''AWS::EC2::Subnet'' then
            (case get resource ''Properties'' (YDict []) of
               Inl e \<Rightarrow> Raised e
             | Inr props \<Rightarrow>
                 (case get props ''CidrBlock'' YNull of
                    Inl e \<Rightarrow> Raised e
                  | Inr cidr \<Rightarrow>
                      if truthy cidr then
                        (case IPv4Network cidr of
                           Inr network \<Rightarrow>
                             collect rest (subnet_cidrs @ [(resource_name, network)])
                         | Inl e \<Rightarrow>
                             if is_ValueError e
                             then Returned False (Invalid_CIDR resource_name cidr)
                             else Raised e)
                      else collect rest subnet_cidrs))
          else collect rest subnet_cidrs)"

text \<open>
  The inner loop, over \<open>enumerate(subnet_cidrs[i+1:], i+1)\<close>. Beside the message of the
  \<open>return False\<close> it gives the index pairs on which \<open>overlaps\<close> was called, in order.
\<close>

fun inner :: "nat \<Rightarrow> string \<times> IPv4Network \<Rightarrow> nat \<Rightarrow> (string \<times> IPv4Network) list
    \<Rightarrow> (nat \<times> nat) list \<times> message option" where
  "inner i e1 j [] = ([], None)"
| "inner i (name1, net1) j ((name2, net2) # rest) =
     (if overlaps net1 net2 then ([(i, j)], Some (CIDR_overlap name1 net1 name2 net2))
      else (case inner i (name1, net1) (j + 1) rest of
              (calls, r) \<Rightarrow> ((i, j) # calls, r)))"

text \<open>The outer loop, over \<open>enumerate(subnet_cidrs)\<close>: the argument is \<open>subnet_cidrs[i:]\<close>.\<close>

fun outer :: "nat \<Rightarrow> (string \<times> IPv4Network) list \<Rightarrow> (nat \<times> nat) list \<times> message option" where
  "outer i [] = ([], None)"
| "outer i (e1 # rest) =
     (case inner i e1 (i + 1) rest of
        (calls, Some m) \<Rightarrow> (calls, Some m)
      | (calls, None) \<Rightarrow>
          (case outer (i + 1) rest of (calls', r) \<Rightarrow> (calls @ calls', r)))"

text \<open>The result is what is raised or returned, and the lines printed.\<close>

definition validate_cidr_ranges :: "yaml \<Rightarrow> (exn + bool) \<times> message list" where
  "validate_cidr_ranges template =
     (case get template ''Resources'' (YDict []) of
        Inl e \<Rightarrow> (Inl e, [Validating])
      | Inr (YDict resources) \<Rightarrow>
          (case collect resources [] of
             Raised e \<Rightarrow> (Inl e, [Validating])
           | Returned b m \<Rightarrow> (Inr b, [Validating, m])
           | Finished subnet_cidrs \<Rightarrow>
               (case snd (outer 0 subnet_cidrs) of
                  Some m \<Rightarrow> (Inr False, [Validating, m])
                | None \<Rightarrow> (Inr True, [Validating, Valid_non_overlapping])))
      | Inr _ \<Rightarrow> (Inl AttributeError, [Validating]))"

text \<open>The index pairs \<open>overlaps\<close> is called on when the second loop runs on a list.\<close>

definition comparisons :: "(string \<times> IPv4Network) list \<Rightarrow> (nat \<times> nat) list" where
  "comparisons subnet_cidrs = fst (outer 0 subnet_cidrs)"

section \<open>Notions the properties are stated with\<close>

text \<open>
  What the constructor establishes: a prefix length between 0 and 32, the netmask of that
  length, an address of 32 bits, and no host bit set.
\<close>

definition valid_network :: "IPv4Network \<Rightarrow> bool" where
  "valid_network net =
     (0 \<le> prefixlen net \<and> prefixlen net \<le> 32 \<and>
      netmask net = ip_int_from_prefix (prefixlen net) \<and>
      0 \<le> network_address net \<and> network_address net \<le> ALL_ONES \<and>
      network_address net AND netmask net = network_address net)"

text \<open>The addresses of a network, from the network address to the broadcast address.\<close>

definition address_range :: "IPv4Network \<Rightarrow> int set" where
  "address_range net = {network_address net .. broadcast_address net}"

text \<open>A resource of type subnet with the given \<open>CidrBlock\<close>.\<close>

definition subnet :: "yaml \<Rightarrow> yaml" where
  "subnet cidr =
     YDict [(''Type'', YStr ''AWS::EC2::Subnet''),
            (''Properties'', YDict [(''CidrBlock'', cidr)])]"

text \<open>A template with the given resources.\<close>

definition template :: "(string \<times> yaml) list \<Rightarrow> yaml" where
  "template resources = YDict [(''Resources'', YDict resources)]"

text \<open>The template whose resources are one subnet for each pair of a label and a CIDR string.\<close>

definition template_of :: "(string \<times> string) list \<Rightarrow> yaml" where
  "template_of entries = template (map (\<lambda>(label, cidr). (label, subnet (YStr cidr))) entries)"

text \<open>The entry (label, CIDR string) parses to the labelled network.\<close>

fun parses_to :: "string \<times> string \<Rightarrow> string \<times> IPv4Network \<Rightarrow> bool" where
  "parses_to (label, cidr) (name, net) = (name = label \<and> IPv4Network (YStr cidr) = Inr net)"

text \<open>
  The index pairs \<open>(a, b)\<close> with \<open>i \<le> a < m\<close> and \<open>a < b < n\<close>, row by row; all pairs
  \<open>(i, j)\<close> with \<open>i < j < n\<close> are the rows from 0 to \<open>n\<close>.
\<close>

definition rows :: "nat \<Rightarrow> nat \<Rightarrow> nat \<Rightarrow> (nat \<times> nat) list" where
  "rows i m n = concat (map (\<lambda>a. map (Pair a) [a + 1..<n]) [i..<m])"

definition all_pairs :: "nat \<Rightarrow> (nat \<times> nat) list" where
  "all_pairs n = rows 0 n n"

text \<open>
  A CIDR string written out: four octets and a prefix length, each a decimal numeral with
  an optional minus sign, joined as \<open>a.b.c.d/p\<close>; the number a numeral stands for; and the
  32-bit address of four octets.
\<close>

definition is_numeral :: "string \<Rightarrow> bool" where
  "is_numeral s = (isdigit s \<or> (s \<noteq> [] \<and> hd s = CHR ''-'' \<and> isdigit (tl s)))"

definition numeral_value :: "string \<Rightarrow> int" where
  "numeral_value s = (if s \<noteq> [] \<and> hd s = CHR ''-'' then - int_of_digits (tl s) else int_of_digits s)"

definition cidr_text :: "string \<Rightarrow> string \<Rightarrow> string \<Rightarrow> string \<Rightarrow> string \<Rightarrow> string" where
  "cidr_text a b c d p = a @ ''.'' @ b @ ''.'' @ c @ ''.'' @ d @ ''/'' @ p"

definition address_value :: "int \<Rightarrow> int \<Rightarrow> int \<Rightarrow> int \<Rightarrow> int" where
  "address_value a b c d = 256 * (256 * (256 * a + b) + c) + d"

text \<open>
  The \<open>CidrBlock\<close> of a resource (\<open>None\<close> when there is none to read); the resources the
  first loop takes into \<open>subnet_cidrs\<close>; and the resources it can inspect without an
  \<open>AttributeError\<close>: mappings whose \<open>Properties\<close>, when the type is subnet, is a mapping.
\<close>

definition cidr_of :: "yaml \<Rightarrow> yaml" where
  "cidr_of resource =
     (case get resource ''Properties'' (YDict []) of
        Inl e \<Rightarrow> YNull
      | Inr props \<Rightarrow> (case get props ''CidrBlock'' YNull of Inl e \<Rightarrow> YNull | Inr cidr \<Rightarrow> cidr))"

definition considered :: "yaml \<Rightarrow> bool" where
  "considered resource =
     (get resource ''Type'' YNull = Inr (YStr ''AWS::EC2::Subnet'') \<and> truthy (cidr_of resource))"

definition mappings :: "yaml \<Rightarrow> bool" where
  "mappings resource =
     (case get resource ''Type'' YNull of
        Inl e \<Rightarrow> False
      | Inr ty \<Rightarrow>
          ty \<noteq> YStr ''AWS::EC2::Subnet'' \<or>
          (case get resource ''Properties'' (YDict []) of
             Inl e \<Rightarrow> False
           | Inr props \<Rightarrow> (case get props ''CidrBlock'' YNull of Inl e \<Rightarrow> False | Inr cidr \<Rightarrow> True)))"

text \<open>A resource of type VPC with the given \<open>CidrBlock\<close>.\<close>

definition vpc :: "yaml \<Rightarrow> yaml" where
  "vpc cidr =
     YDict [(''Type'', YStr ''AWS::EC2::VPC''),
            (''Properties'', YDict [(''CidrBlock'', cidr)])]"

section \<open>Netmask arithmetic\<close>

lemma ALL_ONES_mask: "ALL_ONES = mask 32"
  by (simp add: ALL_ONES_def mask_eq_exp_minus_1)

lemma bit_below_32:
  fixes a :: int
  assumes "0 \<le> a" "a \<le> ALL_ONES" "bit a n"
  shows "n < 32"
proof -
  have "take_bit 32 a = a"
    using assms(1,2) by (simp add: take_bit_int_eq_self ALL_ONES_def)
  then have "bit (take_bit 32 a) n" using assms(3) by simp
  then show ?thesis by (simp add: bit_take_bit_iff)
qed

lemma and_netmask:
  fixes a :: int
  assumes "0 \<le> a" "a \<le> ALL_ONES" "0 \<le> p" "p \<le> 32"
  shows "a AND ip_int_from_prefix p = a - a mod 2 ^ (32 - nat p)"
proof -
  let ?k = "32 - nat p"
  have "a AND ip_int_from_prefix p = push_bit ?k (drop_bit ?k a)"
    unfolding ip_int_from_prefix_def ALL_ONES_mask
    using bit_below_32 [OF assms(1,2)] assms(3,4)
    by (auto simp: bit_eq_iff bit_simps)
  also have "\<dots> = a - take_bit ?k a"
    using bits_ident [of ?k a] by simp
  finally show ?thesis by (simp add: take_bit_eq_mod)
qed

lemma hostmask_eq:
  assumes "0 \<le> p" "p \<le> 32"
  shows "ip_int_from_prefix p XOR ALL_ONES = 2 ^ (32 - nat p) - 1"
proof -
  have "ip_int_from_prefix p XOR ALL_ONES = mask (32 - nat p)"
    unfolding ip_int_from_prefix_def ALL_ONES_mask
    using assms by (auto simp: bit_eq_iff bit_simps)
  then show ?thesis by (simp add: mask_eq_exp_minus_1)
qed

lemma or_low_bits:
  fixes n :: int
  assumes "n mod 2 ^ k = 0"
  shows "n OR (2 ^ k - 1) = n + 2 ^ k - 1"
proof -
  have "take_bit k n = 0" using assms by (simp add: take_bit_eq_mod)
  then have "n AND mask k = 0" by (simp add: take_bit_eq_mask)
  then have "n + mask k = n OR mask k" by (rule disjunctive_add_eq_or)
  then show ?thesis by (simp add: mask_eq_exp_minus_1)
qed

lemma in_block:
  fixes a n :: int
  assumes "n mod 2 ^ k = 0"
  shows "a - a mod 2 ^ k = n \<longleftrightarrow> n \<le> a \<and> a \<le> n + 2 ^ k - 1"
proof
  assume "a - a mod 2 ^ k = n"
  moreover have "0 \<le> a mod 2 ^ k" "a mod 2 ^ k < 2 ^ k" by simp_all
  ultimately show "n \<le> a \<and> a \<le> n + 2 ^ k - 1" by linarith
next
  assume h: "n \<le> a \<and> a \<le> n + 2 ^ k - 1"
  have "a mod 2 ^ k = (a - n) mod 2 ^ k"
    using assms by (metis diff_zero mod_diff_right_eq)
  also have "\<dots> = a - n"
    using h by (intro mod_pos_pos_trivial) auto
  finally show "a - a mod 2 ^ k = n" by simp
qed

lemma valid_aligned:
  assumes "valid_network net"
  shows "network_address net mod 2 ^ (32 - nat (prefixlen net)) = 0"
proof -
  let ?n = "network_address net"
  from assms have nm: "netmask net = ip_int_from_prefix (prefixlen net)"
    and fixed: "?n AND netmask net = ?n"
    unfolding valid_network_def by blast+
  have "?n AND ip_int_from_prefix (prefixlen net) = ?n"
    using fixed unfolding nm .
  moreover have "?n AND ip_int_from_prefix (prefixlen net)
      = ?n - ?n mod 2 ^ (32 - nat (prefixlen net))"
    using assms by (intro and_netmask) (simp_all add: valid_network_def)
  ultimately show ?thesis by linarith
qed

lemma valid_broadcast:
  assumes "valid_network net"
  shows "broadcast_address net = network_address net + 2 ^ (32 - nat (prefixlen net)) - 1"
  using assms or_low_bits [OF valid_aligned [OF assms]] hostmask_eq [of "prefixlen net"]
  by (simp add: broadcast_address_def hostmask_def valid_network_def)

lemma valid_broadcast_bounds:
  assumes "valid_network net"
  shows "network_address net \<le> broadcast_address net" "broadcast_address net \<le> ALL_ONES"
proof -
  show "network_address net \<le> broadcast_address net"
    by (simp add: valid_broadcast [OF assms])
  have "broadcast_address net = network_address net OR mask (32 - nat (prefixlen net))"
    using assms hostmask_eq [of "prefixlen net"]
    by (simp add: broadcast_address_def hostmask_def valid_network_def mask_eq_exp_minus_1)
  moreover have "mask (32 - nat (prefixlen net)) < (2::int) ^ 32"
  proof -
    have "(2::int) ^ (32 - nat (prefixlen net)) \<le> 2 ^ 32"
      by (rule power_increasing) simp_all
    then show ?thesis by (simp add: mask_eq_exp_minus_1)
  qed
  ultimately have "broadcast_address net < 2 ^ 32"
    using assms OR_upper [of "network_address net" 32 "mask (32 - nat (prefixlen net))"]
    by (simp add: valid_network_def ALL_ONES_def)
  then show "broadcast_address net \<le> ALL_ONES" by (simp add: ALL_ONES_def)
qed

lemma contains_range:
  assumes "valid_network net" "0 \<le> a" "a \<le> ALL_ONES"
  shows "contains net a \<longleftrightarrow> a \<in> address_range net"
proof -
  have "contains net a \<longleftrightarrow> a - a mod 2 ^ (32 - nat (prefixlen net)) = network_address net"
    using assms and_netmask [of a "prefixlen net"]
    by (simp add: contains_def valid_network_def)
  then show ?thesis
    using in_block [OF valid_aligned [OF assms(1)], of a] valid_broadcast [OF assms(1)]
    by (simp add: address_range_def)
qed

lemma overlaps_iff_ranges:
  assumes "valid_network a" "valid_network b"
  shows "overlaps a b \<longleftrightarrow> address_range a \<inter> address_range b \<noteq> {}"
proof -
  have na: "0 \<le> network_address a" "network_address a \<le> ALL_ONES"
    and nb: "0 \<le> network_address b" "network_address b \<le> ALL_ONES"
    using assms by (simp_all add: valid_network_def)
  note ba = valid_broadcast_bounds [OF assms(1)] and bb = valid_broadcast_bounds [OF assms(2)]
  have ba0: "0 \<le> broadcast_address a" and bb0: "0 \<le> broadcast_address b"
    using na ba nb bb by linarith+
  have "overlaps a b \<longleftrightarrow>
      network_address a \<in> address_range b \<or> broadcast_address a \<in> address_range b \<or>
      network_address b \<in> address_range a \<or> broadcast_address b \<in> address_range a"
    unfolding overlaps_def
    using contains_range [OF assms(2) na] contains_range [OF assms(2) ba0 ba(2)]
      contains_range [OF assms(1) nb] contains_range [OF assms(1) bb0 bb(2)]
    by simp
  also have "\<dots> \<longleftrightarrow> address_range a \<inter> address_range b \<noteq> {}"
    using ba(1) bb(1) unfolding address_range_def
    by (auto simp: set_eq_iff) 
  finally show ?thesis .
qed

section \<open>What a successful parse guarantees\<close>

lemma is_digit_range:
  assumes "is_digit c"
  shows "48 \<le> (of_char c :: nat) \<and> (of_char c :: nat) \<le> 57"
  using assms unfolding is_digit_def by auto

lemma foldl_digits_nonneg:
  assumes "list_all is_digit s" "0 \<le> acc"
  shows "0 \<le> foldl (\<lambda>acc c. 10 * acc + (int (of_char c) - 48)) acc s"
  using assms
proof (induction s arbitrary: acc)
  case Nil
  then show ?case by simp
next
  case (Cons c s)
  from Cons.prems(1) have "is_digit c" and rest: "list_all is_digit s" by simp_all
  then have "0 \<le> 10 * acc + (int (of_char c) - 48)"
    using is_digit_range [of c] Cons.prems(2) by simp
  from Cons.IH [OF rest this] show ?case by simp
qed

lemma int_of_digits_nonneg: "isdigit s \<Longrightarrow> 0 \<le> int_of_digits s"
  unfolding isdigit_def int_of_digits_def by (simp add: foldl_digits_nonneg)

lemma parse_octet_Inr:
  assumes "parse_octet s = Inr b"
  shows "isdigit s \<and> b = int_of_digits s \<and> 0 \<le> b \<and> b \<le> 255"
  using assms int_of_digits_nonneg [of s]
  by (auto simp: parse_octet_def Let_def split: if_splits)

lemma from_bytes_bounds:
  assumes "from_bytes acc ss = Inr n" "0 \<le> acc"
  shows "0 \<le> n \<and> n < (acc + 1) * 256 ^ length ss"
  using assms
proof (induction ss arbitrary: acc)
  case Nil
  then show ?case by simp
next
  case (Cons s ss)
  from Cons.prems(1) obtain b where b: "parse_octet s = Inr b"
    and r: "from_bytes (256 * acc + b) ss = Inr n"
    by (auto split: sum.splits)
  from parse_octet_Inr [OF b] have bb: "0 \<le> b" "b \<le> 255" by simp_all
  with Cons.prems(2) have "0 \<le> 256 * acc + b" by simp
  from Cons.IH [OF r this] have n: "0 \<le> n" "n < (256 * acc + b + 1) * 256 ^ length ss"
    by simp_all
  have "(256 * acc + b + 1) * 256 ^ length ss \<le> (256 * (acc + 1)) * 256 ^ length ss"
    using bb by (intro mult_right_mono) simp_all
  also have "\<dots> = (acc + 1) * 256 ^ length (s # ss)" by simp
  finally have "(256 * acc + b + 1) * 256 ^ length ss \<le> (acc + 1) * 256 ^ length (s # ss)" .
  with n show ?case by linarith
qed

lemma ip_int_from_string_bounds:
  assumes "ip_int_from_string s = Inr n"
  shows "0 \<le> n \<and> n \<le> ALL_ONES"
proof -
  from assms have len: "length (split CHR ''.'' s) = 4"
    and fb: "from_bytes 0 (split CHR ''.'' s) = Inr n"
    by (auto simp: ip_int_from_string_def Let_def split: if_splits sum.splits)
  from from_bytes_bounds [OF fb] len show ?thesis by (simp add: ALL_ONES_def)
qed

lemma IPv4Address_bounds:
  assumes "IPv4Address a = Inr n"
  shows "0 \<le> n \<and> n \<le> ALL_ONES"
proof (cases a)
  case (ArgInt k)
  with assms show ?thesis
    by (auto simp: check_int_address_def split: if_splits sum.splits)
next
  case (ArgStr s)
  with assms show ?thesis
    by (auto dest: ip_int_from_string_bounds split: if_splits)
qed

lemma bit_length_nonneg: "0 \<le> bit_length n"
proof (induction n rule: bit_length.induct)
  case (1 n)
  then show ?case by (subst bit_length.simps) auto
qed

lemma prefix_from_ip_int_bounds:
  assumes "prefix_from_ip_int ip = Inr p"
  shows "0 \<le> p \<and> p \<le> 32"
proof -
  have "0 \<le> count_righthand_zero_bits ip 32 \<and> count_righthand_zero_bits ip 32 \<le> 32"
    using bit_length_nonneg by (simp add: count_righthand_zero_bits_def)
  with assms show ?thesis
    by (auto simp: prefix_from_ip_int_def max_prefixlen_def Let_def split: if_splits)
qed

lemma make_netmask_Inr:
  assumes "make_netmask m = Inr (nm, p)"
  shows "0 \<le> p \<and> p \<le> 32 \<and> nm = ip_int_from_prefix p"
proof (cases m)
  case (ArgInt k)
  with assms show ?thesis by (auto simp: max_prefixlen_def split: if_splits)
next
  case (ArgStr s)
  show ?thesis
  proof (cases "prefix_from_prefix_string s")
    case (Inr q)
    with assms ArgStr have "q = p" "nm = ip_int_from_prefix p" by auto
    with Inr show ?thesis
      by (auto simp: prefix_from_prefix_string_def max_prefixlen_def Let_def split: if_splits)
  next
    case (Inl e)
    with assms ArgStr obtain q where q: "prefix_from_ip_string s = Inr q"
      and "q = p" "nm = ip_int_from_prefix p"
      by (auto split: sum.splits)
    from q obtain ip where "prefix_from_ip_int ip = Inr q"
      by (auto simp: prefix_from_ip_string_def split: sum.splits)
    from prefix_from_ip_int_bounds [OF this] \<open>q = p\<close> \<open>nm = ip_int_from_prefix p\<close>
    show ?thesis by simp
  qed
qed

lemma IPv4Network_valid:
  assumes "IPv4Network v = Inr net"
  shows "valid_network net"
proof -
  from assms obtain addr m packed nm p where
    a: "IPv4Address addr = Inr packed" and mk: "make_netmask m = Inr (nm, p)"
    and host: "packed AND nm = packed"
    and net: "net = \<lparr>network_address = packed, netmask = nm, prefixlen = p\<rparr>"
    by (auto simp: IPv4Network_def split: sum.splits prod.splits if_splits)
  from IPv4Address_bounds [OF a] make_netmask_Inr [OF mk] host net
  show ?thesis by (simp add: valid_network_def)
qed

lemma IPv4Network_nonempty:
  assumes "IPv4Network (YStr c) = Inr net"
  shows "c \<noteq> []"
proof
  assume "c = []"
  moreover have "IPv4Network (YStr []) = Inl AddressValueError"
    by (simp add: IPv4Network_def ip_int_from_string_def)
  ultimately show False using assms by simp
qed

section \<open>The overlap scan\<close>

lemma inner_None:
  assumes "\<forall>x\<in>set rest. \<not> overlaps (snd e) (snd x)"
  shows "inner i e j rest = (map (Pair i) [j..<j + length rest], None)"
  using assms
proof (induction rest arbitrary: j)
  case Nil
  then show ?case by simp
next
  case (Cons x rest)
  obtain name1 net1 where e: "e = (name1, net1)" by (cases e)
  obtain name2 net2 where x: "x = (name2, net2)" by (cases x)
  from Cons.prems have no: "\<not> overlaps net1 net2"
    and rest: "\<forall>y\<in>set rest. \<not> overlaps (snd e) (snd y)"
    by (simp_all add: e x)
  have "[j..<j + length (x # rest)] = j # [j + 1..<j + 1 + length rest]"
    by (simp add: upt_conv_Cons del: upt_Suc)
  with Cons.IH [OF rest, of "j + 1"] no show ?case
    by (simp add: e x del: upt_Suc)
qed

lemma inner_Some:
  assumes "k < length rest" "overlaps (snd e) (snd (rest ! k))"
    and "\<forall>k'<k. \<not> overlaps (snd e) (snd (rest ! k'))"
  shows "inner i e j rest =
    (map (Pair i) [j..<j + k + 1],
     Some (CIDR_overlap (fst e) (snd e) (fst (rest ! k)) (snd (rest ! k))))"
  using assms
proof (induction rest arbitrary: j k)
  case Nil
  then show ?case by simp
next
  case (Cons x rest)
  obtain name1 net1 where e: "e = (name1, net1)" by (cases e)
  obtain name2 net2 where x: "x = (name2, net2)" by (cases x)
  show ?case
  proof (cases k)
    case 0
    with Cons.prems(2) show ?thesis by (simp add: e x)
  next
    case (Suc k')
    from Cons.prems(3) Suc have no: "\<not> overlaps net1 net2"
      by (auto simp: e x)
    from Cons.prems(3) Suc have earlier: "\<forall>m<k'. \<not> overlaps (snd e) (snd (rest ! m))"
      by auto
    from Cons.prems(1,2) Suc have "k' < length rest" "overlaps (snd e) (snd (rest ! k'))"
      by simp_all
    moreover have "[j..<j + k + 1] = j # [j + 1..<j + 1 + k' + 1]"
      using Suc by (simp add: upt_conv_Cons del: upt_Suc)
    ultimately show ?thesis
      using Cons.IH [OF _ _ earlier, of "j + 1"] no Suc
      by (simp add: e x del: upt_Suc)
  qed
qed

lemma outer_None:
  assumes "\<forall>a b. a < b \<and> b < length nets \<longrightarrow> \<not> overlaps (snd (nets ! a)) (snd (nets ! b))"
  shows "outer i nets = (rows i (i + length nets) (i + length nets), None)"
  using assms
proof (induction nets arbitrary: i)
  case Nil
  then show ?case by (simp add: rows_def)
next
  case (Cons e rest)
  have first: "\<forall>x\<in>set rest. \<not> overlaps (snd e) (snd x)"
  proof
    fix x assume "x \<in> set rest"
    then obtain k where "k < length rest" "rest ! k = x" by (auto simp: in_set_conv_nth)
    with Cons.prems [rule_format, of 0 "Suc k"] show "\<not> overlaps (snd e) (snd x)" by simp
  qed
  have later: "\<forall>a b. a < b \<and> b < length rest \<longrightarrow> \<not> overlaps (snd (rest ! a)) (snd (rest ! b))"
  proof (intro allI impI)
    fix a b assume "a < b \<and> b < length rest"
    with Cons.prems [rule_format, of "Suc a" "Suc b"]
    show "\<not> overlaps (snd (rest ! a)) (snd (rest ! b))" by simp
  qed
  have "[i..<i + length (e # rest)] = i # [i + 1..<i + 1 + length rest]"
    by (simp add: upt_conv_Cons del: upt_Suc)
  then have "rows i (i + length (e # rest)) (i + length (e # rest))
      = map (Pair i) [i + 1..<i + 1 + length rest]
        @ rows (i + 1) (i + 1 + length rest) (i + 1 + length rest)"
    by (simp add: rows_def del: upt_Suc)
  then show ?case
    using inner_None [OF first, of i "i + 1"] Cons.IH [OF later, of "i + 1"]
    by (simp del: upt_Suc)
qed

lemma outer_Some:
  assumes "a < b" "b < length nets" "overlaps (snd (nets ! a)) (snd (nets ! b))"
    and "\<forall>a' b'. a' < b' \<and> b' < length nets \<and> (a' < a \<or> (a' = a \<and> b' < b))
          \<longrightarrow> \<not> overlaps (snd (nets ! a')) (snd (nets ! b'))"
  shows "outer i nets =
    (rows i (i + a) (i + length nets) @ map (Pair (i + a)) [i + a + 1..<i + b + 1],
     Some (CIDR_overlap (fst (nets ! a)) (snd (nets ! a)) (fst (nets ! b)) (snd (nets ! b))))"
  using assms
proof (induction nets arbitrary: i a b)
  case Nil
  then show ?case by simp
next
  case (Cons e rest)
  from Cons.prems(1) obtain b' where b: "b = Suc b'" by (cases b) auto
  show ?case
  proof (cases a)
    case 0
    have k: "b' < length rest" using Cons.prems(2) b by simp
    have ov: "overlaps (snd e) (snd (rest ! b'))" using Cons.prems(3) 0 b by simp
    have earlier: "\<forall>k'<b'. \<not> overlaps (snd e) (snd (rest ! k'))"
    proof (intro allI impI)
      fix k' assume "k' < b'"
      with Cons.prems(4) [rule_format, of 0 "Suc k'"] Cons.prems(2) 0 b
      show "\<not> overlaps (snd e) (snd (rest ! k'))" by simp
    qed
    from inner_Some [OF k ov earlier, of i "i + 1"] 0 b show ?thesis
      by (simp add: rows_def del: upt_Suc)
  next
    case (Suc a')
    have first: "\<forall>x\<in>set rest. \<not> overlaps (snd e) (snd x)"
    proof
      fix x assume "x \<in> set rest"
      then obtain k where "k < length rest" "rest ! k = x" by (auto simp: in_set_conv_nth)
      with Cons.prems(4) [rule_format, of 0 "Suc k"] Suc
      show "\<not> overlaps (snd e) (snd x)" by simp
    qed
    have p1: "a' < b'" using Cons.prems(1) Suc b by simp
    have p2: "b' < length rest" using Cons.prems(2) b by simp
    have p3: "overlaps (snd (rest ! a')) (snd (rest ! b'))" using Cons.prems(3) Suc b by simp
    have p4: "\<forall>x y. x < y \<and> y < length rest \<and> (x < a' \<or> (x = a' \<and> y < b'))
          \<longrightarrow> \<not> overlaps (snd (rest ! x)) (snd (rest ! y))"
    proof (intro allI impI)
      fix x y assume "x < y \<and> y < length rest \<and> (x < a' \<or> (x = a' \<and> y < b'))"
      with Cons.prems(4) [rule_format, of "Suc x" "Suc y"] Suc b
      show "\<not> overlaps (snd (rest ! x)) (snd (rest ! y))" by simp
    qed
    have "[i..<i + a] = i # [i + 1..<i + 1 + a']"
      using Suc by (simp add: upt_conv_Cons del: upt_Suc)
    then have "rows i (i + a) (i + length (e # rest))
        = map (Pair i) [i + 1..<i + 1 + length rest]
          @ rows (i + 1) (i + 1 + a') (i + 1 + length rest)"
      by (simp add: rows_def del: upt_Suc)
    then show ?thesis
      using inner_None [OF first, of i "i + 1"] Cons.IH [OF p1 p2 p3 p4, of "i + 1"] Suc b
      by (simp del: upt_Suc)
  qed
qed

lemma first_pair:
  fixes P :: "nat \<Rightarrow> nat \<Rightarrow> bool"
  assumes "\<exists>a b. a < b \<and> b < n \<and> P a b"
  shows "\<exists>a b. a < b \<and> b < n \<and> P a b \<and>
    (\<forall>a' b'. a' < b' \<and> b' < n \<and> (a' < a \<or> (a' = a \<and> b' < b)) \<longrightarrow> \<not> P a' b')"
proof -
  define Q where "Q a \<longleftrightarrow> (\<exists>b. a < b \<and> b < n \<and> P a b)" for a
  from assms have "\<exists>a. Q a" by (auto simp: Q_def)
  define a where "a = (LEAST a. Q a)"
  have Qa: "Q a" unfolding a_def using \<open>\<exists>a. Q a\<close> by (rule LeastI_ex)
  have mina: "\<not> Q a'" if "a' < a" for a'
    using that not_less_Least unfolding a_def by blast
  define R where "R b \<longleftrightarrow> a < b \<and> b < n \<and> P a b" for b
  from Qa have "\<exists>b. R b" by (simp add: Q_def R_def)
  define b where "b = (LEAST b. R b)"
  have Rb: "R b" unfolding b_def using \<open>\<exists>b. R b\<close> by (rule LeastI_ex)
  have minb: "\<not> R b'" if "b' < b" for b'
    using that not_less_Least unfolding b_def by blast
  have "\<forall>a' b'. a' < b' \<and> b' < n \<and> (a' < a \<or> (a' = a \<and> b' < b)) \<longrightarrow> \<not> P a' b'"
    using mina minb by (auto simp: Q_def R_def)
  with Rb show ?thesis unfolding R_def by blast
qed

lemma outer_None_iff:
  "snd (outer i nets) = None \<longleftrightarrow>
     (\<forall>a b. a < b \<and> b < length nets \<longrightarrow> \<not> overlaps (snd (nets ! a)) (snd (nets ! b)))"
proof
  assume none: "snd (outer i nets) = None"
  show "\<forall>a b. a < b \<and> b < length nets \<longrightarrow> \<not> overlaps (snd (nets ! a)) (snd (nets ! b))"
  proof (rule ccontr)
    assume "\<not> ?thesis"
    then have "\<exists>a b. a < b \<and> b < length nets \<and> overlaps (snd (nets ! a)) (snd (nets ! b))"
      by blast
    from first_pair [OF this] obtain a b where "a < b" "b < length nets"
      "overlaps (snd (nets ! a)) (snd (nets ! b))"
      "\<forall>a' b'. a' < b' \<and> b' < length nets \<and> (a' < a \<or> (a' = a \<and> b' < b))
          \<longrightarrow> \<not> overlaps (snd (nets ! a')) (snd (nets ! b'))"
      by blast
    from outer_Some [OF this, of i] none show False by simp
  qed
next
  assume "\<forall>a b. a < b \<and> b < length nets \<longrightarrow> \<not> overlaps (snd (nets ! a)) (snd (nets ! b))"
  from outer_None [OF this, of i] show "snd (outer i nets) = None" by simp
qed

section \<open>Templates of subnets\<close>

lemma get_subnet [simp]:
  "get (subnet cidr) ''Type'' d = Inr (YStr ''AWS::EC2::Subnet'')"
  "get (subnet cidr) ''Properties'' d = Inr (YDict [(''CidrBlock'', cidr)])"
  by (simp_all add: subnet_def)

lemma collect_subnet_ok:
  assumes "IPv4Network (YStr c) = Inr net"
  shows "collect ((label, subnet (YStr c)) # rest) acc = collect rest (acc @ [(label, net)])"
  using assms IPv4Network_nonempty [OF assms] by simp

lemma collect_subnets:
  assumes "list_all2 parses_to entries nets"
  shows "collect (map (\<lambda>(label, cidr). (label, subnet (YStr cidr))) entries) acc
    = Finished (acc @ nets)"
  using assms
proof (induction entries nets arbitrary: acc rule: list_all2_induct)
  case Nil
  then show ?case by simp
next
  case (Cons e entries n nets)
  obtain label cidr where e: "e = (label, cidr)" by (cases e)
  obtain name net where n: "n = (name, net)" by (cases n)
  from Cons.hyps(1) have "name = label" "IPv4Network (YStr cidr) = Inr net"
    by (simp_all add: e n)
  then show ?case
    using Cons.IH [of "acc @ [(label, net)]"] collect_subnet_ok [of cidr net label]
    by (simp add: e n)
qed

lemma validate_template:
  "validate_cidr_ranges (template resources) =
     (case collect resources [] of
        Raised e \<Rightarrow> (Inl e, [Validating])
      | Returned b m \<Rightarrow> (Inr b, [Validating, m])
      | Finished subnet_cidrs \<Rightarrow>
          (case snd (outer 0 subnet_cidrs) of
             Some m \<Rightarrow> (Inr False, [Validating, m])
           | None \<Rightarrow> (Inr True, [Validating, Valid_non_overlapping])))"
  by (simp add: validate_cidr_ranges_def template_def)

lemma validate_template_of:
  assumes "list_all2 parses_to entries nets"
  shows "validate_cidr_ranges (template_of entries) =
     (case snd (outer 0 nets) of
        Some m \<Rightarrow> (Inr False, [Validating, m])
      | None \<Rightarrow> (Inr True, [Validating, Valid_non_overlapping]))"
  using collect_subnets [OF assms, of "[]"]
  by (simp add: validate_template template_of_def)

lemma parsed_valid:
  assumes "list_all2 parses_to entries nets" "i < length nets"
  shows "valid_network (snd (nets ! i))"
proof -
  from assms have "parses_to (entries ! i) (nets ! i)"
    by (simp add: list_all2_conv_all_nth)
  then obtain v where "IPv4Network v = Inr (snd (nets ! i))"
    by (cases "entries ! i"; cases "nets ! i") auto
  then show ?thesis by (rule IPv4Network_valid)
qed

section \<open>The order of the comparisons\<close>


lemma rows_empty [simp]: "m \<le> i \<Longrightarrow> rows i m n = []"
  by (simp add: rows_def)







lemma scan_cases:
  "(outer 0 nets = (all_pairs (length nets), None) \<and>
      (\<forall>a b. a < b \<and> b < length nets \<longrightarrow> \<not> overlaps (snd (nets ! a)) (snd (nets ! b))))
   \<or> (\<exists>a b. a < b \<and> b < length nets \<and> overlaps (snd (nets ! a)) (snd (nets ! b)) \<and>
        (\<forall>a' b'. a' < b' \<and> b' < length nets \<and> (a' < a \<or> (a' = a \<and> b' < b))
            \<longrightarrow> \<not> overlaps (snd (nets ! a')) (snd (nets ! b'))) \<and>
        outer 0 nets = (rows 0 a (length nets) @ map (Pair a) [a + 1..<b + 1],
          Some (CIDR_overlap (fst (nets ! a)) (snd (nets ! a)) (fst (nets ! b)) (snd (nets ! b)))))"
proof (cases "\<exists>a b. a < b \<and> b < length nets \<and> overlaps (snd (nets ! a)) (snd (nets ! b))")
  case False
  then have no: "\<forall>a b. a < b \<and> b < length nets \<longrightarrow> \<not> overlaps (snd (nets ! a)) (snd (nets ! b))"
    by blast
  from outer_None [OF no, of 0] no show ?thesis by (simp add: all_pairs_def)
next
  case True
  from first_pair [OF True] obtain a b where ab: "a < b" "b < length nets"
    "overlaps (snd (nets ! a)) (snd (nets ! b))"
    "\<forall>a' b'. a' < b' \<and> b' < length nets \<and> (a' < a \<or> (a' = a \<and> b' < b))
        \<longrightarrow> \<not> overlaps (snd (nets ! a')) (snd (nets ! b'))"
    by blast
  have "outer 0 nets = (rows 0 a (length nets) @ map (Pair a) [a + 1..<b + 1],
      Some (CIDR_overlap (fst (nets ! a)) (snd (nets ! a)) (fst (nets ! b)) (snd (nets ! b))))"
    using outer_Some [OF ab, of 0] by (simp del: upt_Suc)
  with ab show ?thesis by blast
qed

section \<open>Strings in dotted form\<close>

lemma split_no_separator:
  assumes "c \<notin> set s"
  shows "split c s = [s]"
  using assms by (induction s) auto

lemma split_at_separator:
  assumes "c \<notin> set s"
  shows "split c (s @ c # t) = s # split c t"
  using assms by (induction s) auto

lemma separators_not_digits:
  "\<not> is_digit CHR ''.''" "\<not> is_digit CHR ''/''" "\<not> is_digit CHR ''-''"
  by (simp_all add: is_digit_def)

lemma digits_no_separator:
  assumes "list_all is_digit s"
  shows "CHR ''.'' \<notin> set s" "CHR ''/'' \<notin> set s" "CHR ''-'' \<notin> set s"
  using assms separators_not_digits by (auto simp: list_all_iff)

lemma numeral_no_separator:
  assumes "is_numeral s"
  shows "CHR ''.'' \<notin> set s" "CHR ''/'' \<notin> set s" "s \<noteq> []"
proof -
  from assms consider "isdigit s" | "s \<noteq> []" "hd s = CHR ''-''" "isdigit (tl s)"
    by (auto simp: is_numeral_def)
  then have "CHR ''.'' \<notin> set s \<and> CHR ''/'' \<notin> set s \<and> s \<noteq> []"
  proof cases
    case 1
    then show ?thesis using digits_no_separator [of s] by (simp add: isdigit_def)
  next
    case 2
    then obtain t where s: "s = CHR ''-'' # t" and "isdigit t" by (cases s) auto
    then show ?thesis using digits_no_separator [of t] by (simp add: isdigit_def)
  qed
  then show "CHR ''.'' \<notin> set s" "CHR ''/'' \<notin> set s" "s \<noteq> []" by simp_all
qed

lemma isdigit_numeral_value:
  assumes "isdigit s"
  shows "numeral_value s = int_of_digits s"
proof -
  from assms have "s \<noteq> []" "list_all is_digit s" by (simp_all add: isdigit_def)
  then have "hd s \<noteq> CHR ''-''"
    using digits_no_separator(3) [of s] by (cases s) auto
  then show ?thesis by (simp add: numeral_value_def)
qed

lemma not_isdigit_negative:
  assumes "is_numeral s" "\<not> isdigit s"
  shows "numeral_value s \<le> 0"
proof -
  from assms have "s \<noteq> []" "hd s = CHR ''-''" "isdigit (tl s)"
    by (auto simp: is_numeral_def)
  then show ?thesis using int_of_digits_nonneg [of "tl s"] by (simp add: numeral_value_def)
qed

lemma split_cidr_text:
  assumes "is_numeral a" "is_numeral b" "is_numeral c" "is_numeral d" "is_numeral p"
  shows "split CHR ''/'' (cidr_text a b c d p) = [a @ ''.'' @ b @ ''.'' @ c @ ''.'' @ d, p]"
    and "split CHR ''.'' (a @ ''.'' @ b @ ''.'' @ c @ ''.'' @ d) = [a, b, c, d]"
proof -
  note n = assms [THEN numeral_no_separator(1)] assms [THEN numeral_no_separator(2)]
  have "CHR ''/'' \<notin> set (a @ ''.'' @ b @ ''.'' @ c @ ''.'' @ d)"
    using n by simp
  from split_at_separator [OF this, of p]
  show "split CHR ''/'' (cidr_text a b c d p) = [a @ ''.'' @ b @ ''.'' @ c @ ''.'' @ d, p]"
    using n split_no_separator [of "CHR ''/''" p] by (simp add: cidr_text_def)
  have "split CHR ''.'' (a @ CHR ''.'' # (b @ CHR ''.'' # (c @ CHR ''.'' # d))) = [a, b, c, d]"
    using n by (simp add: split_at_separator split_no_separator)
  then show "split CHR ''.'' (a @ ''.'' @ b @ ''.'' @ c @ ''.'' @ d) = [a, b, c, d]" by simp
qed

lemma IPv4Network_cidr_text:
  assumes "is_numeral a" "is_numeral b" "is_numeral c" "is_numeral d" "is_numeral p"
    and "IPv4Network (YStr (cidr_text a b c d p)) = Inr net"
  shows "0 \<le> numeral_value a \<and> numeral_value a \<le> 255 \<and>
         0 \<le> numeral_value b \<and> numeral_value b \<le> 255 \<and>
         0 \<le> numeral_value c \<and> numeral_value c \<le> 255 \<and>
         0 \<le> numeral_value d \<and> numeral_value d \<le> 255 \<and>
         0 \<le> numeral_value p \<and> numeral_value p \<le> 32 \<and>
         address_value (numeral_value a) (numeral_value b) (numeral_value c) (numeral_value d)
           AND ip_int_from_prefix (numeral_value p)
         = address_value (numeral_value a) (numeral_value b) (numeral_value c) (numeral_value d)"
proof -
  let ?addr = "a @ ''.'' @ b @ ''.'' @ c @ ''.'' @ d"
  note sp = split_cidr_text [OF assms(1-5)]
  have noslash: "CHR ''/'' \<notin> set ?addr"
    using assms(1-4) [THEN numeral_no_separator(2)] by simp
  have nonempty: "?addr \<noteq> []" by simp
  from assms(6) obtain packed nm plen where
    ia: "IPv4Address (ArgStr ?addr) = Inr packed"
    and mk: "make_netmask (ArgStr p) = Inr (nm, plen)"
    and host: "packed AND nm = packed"
    unfolding IPv4Network_def
    by (auto simp: sp(1) split: sum.splits prod.splits if_splits)
  from ia noslash have "ip_int_from_string ?addr = Inr packed" by simp
  then have fb: "from_bytes 0 [a, b, c, d] = Inr packed"
    unfolding ip_int_from_string_def Let_def sp(2)
    by (auto split: if_splits sum.splits)
  then obtain va vb vc vd where
    pa: "parse_octet a = Inr va" and pb: "parse_octet b = Inr vb"
    and pc: "parse_octet c = Inr vc" and pd: "parse_octet d = Inr vd"
    and packed: "packed = address_value va vb vc vd"
    by (auto simp: address_value_def split: sum.splits)
  note oa = parse_octet_Inr [OF pa] and ob = parse_octet_Inr [OF pb]
    and oc = parse_octet_Inr [OF pc] and od = parse_octet_Inr [OF pd]
  have va: "numeral_value a = va" using oa isdigit_numeral_value [of a] by simp
  have vb: "numeral_value b = vb" using ob isdigit_numeral_value [of b] by simp
  have vc: "numeral_value c = vc" using oc isdigit_numeral_value [of c] by simp
  have vd: "numeral_value d = vd" using od isdigit_numeral_value [of d] by simp
  have "ip_int_from_string p = Inl AddressValueError"
    using numeral_no_separator [OF assms(5)]
    by (simp add: ip_int_from_string_def split_no_separator)
  then have "prefix_from_ip_string p = Inl NetmaskValueError"
    by (simp add: prefix_from_ip_string_def)
  with mk have pp: "prefix_from_prefix_string p = Inr plen" and nm: "nm = ip_int_from_prefix plen"
    by (auto split: sum.splits)
  from pp have dp: "isdigit p" and plen: "plen = int_of_digits p" "0 \<le> plen" "plen \<le> 32"
    by (auto simp: prefix_from_prefix_string_def Let_def max_prefixlen_def split: if_splits)
  have vp: "numeral_value p = plen" using dp plen(1) isdigit_numeral_value [of p] by simp
  from oa ob oc od plen host show ?thesis
    unfolding va vb vc vd vp packed nm by simp
qed

section \<open>Errors of the constructor and the first loop\<close>

lemma IPv4Address_error:
  assumes "IPv4Address a = Inl e"
  shows "is_ValueError e"
  using assms
  by (cases a)
    (auto simp: check_int_address_def ip_int_from_string_def Let_def split: if_splits sum.splits)

lemma make_netmask_error:
  assumes "make_netmask m = Inl e"
  shows "is_ValueError e"
  using assms
  by (cases m)
    (auto simp: prefix_from_ip_string_def split: if_splits sum.splits)

lemma IPv4Network_error:
  assumes "IPv4Network v = Inl e"
  shows "is_ValueError e"
proof (cases "split_addr_prefix v")
  case (Inl e')
  then have "e' = AddressValueError"
    by (cases v) (auto split: list.splits)
  with Inl assms show ?thesis by (simp add: IPv4Network_def)
next
  case (Inr am)
  obtain addr m where am: "am = (addr, m)" by (cases am)
  show ?thesis
  proof (cases "IPv4Address addr")
    case (Inl e')
    with Inr am assms IPv4Address_error [OF Inl] show ?thesis by (simp add: IPv4Network_def)
  next
    case ia: (Inr packed)
    show ?thesis
    proof (cases "make_netmask m")
      case (Inl e')
      with Inr am ia assms make_netmask_error [OF Inl] show ?thesis
        by (simp add: IPv4Network_def)
    next
      case mk: (Inr r)
      with Inr am ia assms show ?thesis
        by (auto simp: IPv4Network_def split: prod.splits if_splits)
    qed
  qed
qed

lemma collect_append:
  "collect (before @ rest) acc =
     (case collect before acc of Finished nets \<Rightarrow> collect rest nets | other \<Rightarrow> other)"
proof (induction before arbitrary: acc)
  case Nil
  then show ?case by simp
next
  case (Cons r before)
  obtain name resource where r: "r = (name, resource)" by (cases r)
  show ?case
    unfolding r append_Cons collect.simps
    by (simp add: Cons.IH split: sum.splits)
qed

lemma collect_invalid:
  assumes "IPv4Network (YStr s) = Inl e" "s \<noteq> []"
  shows "collect ((name, subnet (YStr s)) # rest) acc = Returned False (Invalid_CIDR name (YStr s))"
  using assms IPv4Network_error [OF assms(1)] by simp

lemma collect_skip:
  assumes "mappings resource" "\<not> considered resource"
  shows "collect ((name, resource) # rest) acc = collect rest acc"
  using assms
  by (auto simp: mappings_def considered_def cidr_of_def split: sum.splits)

lemma collect_keep:
  assumes "\<And>acc. collect rest acc = collect rest' acc"
  shows "collect ((name, resource) # rest) acc = collect ((name, resource) # rest') acc"
  using assms by (simp split: sum.splits)

lemma collect_filter:
  assumes "\<forall>(name, resource) \<in> set resources. mappings resource"
  shows "collect resources acc
    = collect (filter (\<lambda>(name, resource). considered resource) resources) acc"
  using assms
proof (induction resources arbitrary: acc)
  case Nil
  then show ?case by simp
next
  case (Cons r resources)
  obtain name resource where r: "r = (name, resource)" by (cases r)
  from Cons.prems have m: "mappings resource"
    and rest: "\<forall>(name, resource) \<in> set resources. mappings resource"
    by (simp_all add: r)
  note IH = Cons.IH [OF rest]
  show ?case
  proof (cases "considered resource")
    case True
    then show ?thesis
      unfolding r using collect_keep [OF IH] by simp
  next
    case False
    then show ?thesis
      unfolding r using collect_skip [OF m False] IH by simp
  qed
qed

lemma collect_considered:
  assumes "collect resources acc = Finished nets"
  shows "\<exists>new. nets = acc @ new \<and>
    list_all2 (\<lambda>(name, resource) (label, net).
        label = name \<and> IPv4Network (cidr_of resource) = Inr net)
      (filter (\<lambda>(name, resource). considered resource) resources) new"
  using assms
proof (induction resources arbitrary: acc)
  case Nil
  then show ?case by simp
next
  case (Cons r resources)
  obtain name resource where r: "r = (name, resource)" by (cases r)
  show ?case
  proof (cases "considered resource")
    case True
    then obtain net where net: "IPv4Network (cidr_of resource) = Inr net"
      and step: "collect resources (acc @ [(name, net)]) = Finished nets"
      using Cons.prems unfolding r
      by (auto simp: considered_def cidr_of_def split: sum.splits if_splits)
    from Cons.IH [OF step] obtain new where "nets = (acc @ [(name, net)]) @ new"
      and "list_all2 (\<lambda>(name, resource) (label, net).
        label = name \<and> IPv4Network (cidr_of resource) = Inr net)
      (filter (\<lambda>(name, resource). considered resource) resources) new"
      by blast
    with True net show ?thesis
      unfolding r by (intro exI [of _ "(name, net) # new"]) simp
  next
    case False
    then have "collect resources acc = Finished nets"
      using Cons.prems unfolding r
      by (auto simp: considered_def cidr_of_def split: sum.splits if_splits)
    from Cons.IH [OF this] False show ?thesis unfolding r by simp
  qed
qed

section \<open>Properties of the overlap check\<close>

text \<open>
  C1. For a list of (label, CIDR) pairs whose CIDR strings all parse, the check returns
  \<open>True\<close> (and prints the success line) exactly when the address ranges of every two
  distinct entries are disjoint; it returns \<open>True\<close> or \<open>False\<close>, never raises; and two
  parsed prefixes overlap exactly when their ranges, from network address to broadcast
  address, have an address in common.
\<close>

theorem overlap_check_iff_ranges_disjoint:
  assumes "list_all2 parses_to entries nets"
  shows "(validate_cidr_ranges (template_of entries) = (Inr True, [Validating, Valid_non_overlapping])
          \<longleftrightarrow> (\<forall>i<length nets. \<forall>j<length nets. i \<noteq> j \<longrightarrow>
                 address_range (snd (nets ! i)) \<inter> address_range (snd (nets ! j)) = {}))
       \<and> (fst (validate_cidr_ranges (template_of entries)) = Inr True
          \<or> fst (validate_cidr_ranges (template_of entries)) = Inr False)
       \<and> (\<forall>i<length nets. \<forall>j<length nets.
            overlaps (snd (nets ! i)) (snd (nets ! j)) \<longleftrightarrow>
            address_range (snd (nets ! i)) \<inter> address_range (snd (nets ! j)) \<noteq> {})"
proof -
  have ov: "overlaps (snd (nets ! i)) (snd (nets ! j)) \<longleftrightarrow>
      address_range (snd (nets ! i)) \<inter> address_range (snd (nets ! j)) \<noteq> {}"
    if "i < length nets" "j < length nets" for i j
    using that parsed_valid [OF assms] by (intro overlaps_iff_ranges) simp_all
  have "validate_cidr_ranges (template_of entries) = (Inr True, [Validating, Valid_non_overlapping])
      \<longleftrightarrow> snd (outer 0 nets) = None"
    by (auto simp: validate_template_of [OF assms] split: option.splits)
  also have "\<dots> \<longleftrightarrow>
      (\<forall>a b. a < b \<and> b < length nets \<longrightarrow> \<not> overlaps (snd (nets ! a)) (snd (nets ! b)))"
    by (rule outer_None_iff)
  also have "\<dots> \<longleftrightarrow> (\<forall>i<length nets. \<forall>j<length nets. i \<noteq> j \<longrightarrow>
      address_range (snd (nets ! i)) \<inter> address_range (snd (nets ! j)) = {})"
  proof (intro iffI allI impI)
    fix i j
    assume h: "\<forall>a b. a < b \<and> b < length nets \<longrightarrow> \<not> overlaps (snd (nets ! a)) (snd (nets ! b))"
      and ij: "i < length nets" "j < length nets" "i \<noteq> j"
    show "address_range (snd (nets ! i)) \<inter> address_range (snd (nets ! j)) = {}"
    proof (cases "i < j")
      case True
      with h ij have "\<not> overlaps (snd (nets ! i)) (snd (nets ! j))" by blast
      with ov [OF ij(1,2)] show ?thesis by simp
    next
      case False
      with ij have "j < i" by simp
      with h ij have "\<not> overlaps (snd (nets ! j)) (snd (nets ! i))" by blast
      with ov [OF ij(2,1)] show ?thesis by (simp add: Int_commute)
    qed
  next
    fix a b
    assume h: "\<forall>i<length nets. \<forall>j<length nets. i \<noteq> j \<longrightarrow>
      address_range (snd (nets ! i)) \<inter> address_range (snd (nets ! j)) = {}"
      and ab: "a < b \<and> b < length nets"
    then have "address_range (snd (nets ! a)) \<inter> address_range (snd (nets ! b)) = {}" by auto
    with ov [of a b] ab show "\<not> overlaps (snd (nets ! a)) (snd (nets ! b))" by simp
  qed
  finally have main: "validate_cidr_ranges (template_of entries)
      = (Inr True, [Validating, Valid_non_overlapping])
      \<longleftrightarrow> (\<forall>i<length nets. \<forall>j<length nets. i \<noteq> j \<longrightarrow>
                 address_range (snd (nets ! i)) \<inter> address_range (snd (nets ! j)) = {})" .
  have total: "fst (validate_cidr_ranges (template_of entries)) = Inr True
          \<or> fst (validate_cidr_ranges (template_of entries)) = Inr False"
    by (simp add: validate_template_of [OF assms] split: option.splits)
  from main total ov show ?thesis by blast
qed

theorem overlap_check_iff_ranges_disjoint_witness:
  "list_all2 parses_to
     [(''S1'', ''10.0.0.0/26''), (''S2'', ''10.0.0.64/26'')]
     [(''S1'', \<lparr>network_address = 167772160, netmask = 4294967232, prefixlen = 26\<rparr>),
      (''S2'', \<lparr>network_address = 167772224, netmask = 4294967232, prefixlen = 26\<rparr>)]
   \<and> address_range \<lparr>network_address = 167772160, netmask = 4294967232, prefixlen = 26\<rparr>
     \<inter> address_range \<lparr>network_address = 167772224, netmask = 4294967232, prefixlen = 26\<rparr> = {}"
proof -
  let ?E = "[(''S1'', ''10.0.0.0/26''), (''S2'', ''10.0.0.64/26'')]"
  let ?N = "[(''S1'', \<lparr>network_address = 167772160, netmask = 4294967232, prefixlen = 26\<rparr>),
      (''S2'', \<lparr>network_address = 167772224, netmask = 4294967232, prefixlen = 26\<rparr>)]"
  have p: "list_all2 parses_to ?E ?N" by code_simp
  have v: "validate_cidr_ranges (template_of ?E) = (Inr True, [Validating, Valid_non_overlapping])"
    by code_simp
  from overlap_check_iff_ranges_disjoint [OF p] v
  have "\<forall>i<length ?N. \<forall>j<length ?N. i \<noteq> j \<longrightarrow>
      address_range (snd (?N ! i)) \<inter> address_range (snd (?N ! j)) = {}"
    by blast
  from this [rule_format, of 0 1] p show ?thesis by simp
qed

text \<open>
  C5. \<open>overlaps\<close> is symmetric: it tests the same four memberships in either order.
\<close>

theorem overlaps_symmetric: "overlaps a b = overlaps b a"
  by (auto simp: overlaps_def)

text \<open>
  C7. The adjacent prefixes 10.0.0.0/26 and 10.0.0.64/26 parse, do not overlap in either
  order, and a template holding the two as subnets passes the check.
\<close>

theorem adjacent_prefixes_disjoint:
  "IPv4Network (YStr ''10.0.0.0/26'') = Inr \<lparr>network_address = 167772160, netmask = 4294967232, prefixlen = 26\<rparr>
   \<and> IPv4Network (YStr ''10.0.0.64/26'') = Inr \<lparr>network_address = 167772224, netmask = 4294967232, prefixlen = 26\<rparr>
   \<and> overlaps \<lparr>network_address = 167772160, netmask = 4294967232, prefixlen = 26\<rparr>
         \<lparr>network_address = 167772224, netmask = 4294967232, prefixlen = 26\<rparr> = False
   \<and> overlaps \<lparr>network_address = 167772224, netmask = 4294967232, prefixlen = 26\<rparr>
         \<lparr>network_address = 167772160, netmask = 4294967232, prefixlen = 26\<rparr> = False
   \<and> validate_cidr_ranges (template_of [(''S1'', ''10.0.0.0/26''), (''S2'', ''10.0.0.64/26'')])
       = (Inr True, [Validating, Valid_non_overlapping])
   \<and> validate_cidr_ranges (template_of [(''S2'', ''10.0.0.64/26''), (''S1'', ''10.0.0.0/26'')])
       = (Inr True, [Validating, Valid_non_overlapping])"
  by code_simp

text \<open>
  C8. The prefix 10.0.0.0/26 lies inside 10.0.0.0/24: the two overlap in either order, and
  a template holding both as subnets fails the check with the overlap line naming them.
\<close>

theorem contained_prefix_overlaps:
  "IPv4Network (YStr ''10.0.0.0/24'') = Inr \<lparr>network_address = 167772160, netmask = 4294967040, prefixlen = 24\<rparr>
   \<and> IPv4Network (YStr ''10.0.0.0/26'') = Inr \<lparr>network_address = 167772160, netmask = 4294967232, prefixlen = 26\<rparr>
   \<and> overlaps \<lparr>network_address = 167772160, netmask = 4294967040, prefixlen = 24\<rparr>
         \<lparr>network_address = 167772160, netmask = 4294967232, prefixlen = 26\<rparr>
   \<and> overlaps \<lparr>network_address = 167772160, netmask = 4294967232, prefixlen = 26\<rparr>
         \<lparr>network_address = 167772160, netmask = 4294967040, prefixlen = 24\<rparr>
   \<and> validate_cidr_ranges (template_of [(''A'', ''10.0.0.0/24''), (''B'', ''10.0.0.0/26'')])
       = (Inr False, [Validating,
            CIDR_overlap ''A'' \<lparr>network_address = 167772160, netmask = 4294967040, prefixlen = 24\<rparr>
                         ''B'' \<lparr>network_address = 167772160, netmask = 4294967232, prefixlen = 26\<rparr>])
   \<and> validate_cidr_ranges (template_of [(''B'', ''10.0.0.0/26''), (''A'', ''10.0.0.0/24'')])
       = (Inr False, [Validating,
            CIDR_overlap ''B'' \<lparr>network_address = 167772160, netmask = 4294967232, prefixlen = 26\<rparr>
                         ''A'' \<lparr>network_address = 167772160, netmask = 4294967040, prefixlen = 24\<rparr>])"
  by code_simp

text \<open>
  C9. With no entries the check calls \<open>overlaps\<close> on nothing, prints no overlap line and
  returns \<open>True\<close> without raising; so it does when the template has no resources at all.
\<close>

theorem empty_input_passes:
  "validate_cidr_ranges (template_of []) = (Inr True, [Validating, Valid_non_overlapping])
   \<and> validate_cidr_ranges (YDict []) = (Inr True, [Validating, Valid_non_overlapping])
   \<and> comparisons [] = []"
  by (simp add: validate_cidr_ranges_def template_of_def template_def comparisons_def)

text \<open>
  C2, as the code has it. The check stops at the first overlapping pair: when the CIDRs all
  parse, it either prints one overlap line, for the first overlapping pair in the order of
  the scan (least \<open>i\<close>, then least \<open>j\<close>), and returns \<open>False\<close>, or no pair overlaps and it
  prints the success line and returns \<open>True\<close>.
\<close>

theorem first_conflict_reported:
  assumes "list_all2 parses_to entries nets"
  shows "(\<exists>i j. i < j \<and> j < length nets \<and> overlaps (snd (nets ! i)) (snd (nets ! j)) \<and>
            (\<forall>i' j'. i' < j' \<and> j' < length nets \<and> (i' < i \<or> (i' = i \<and> j' < j))
                \<longrightarrow> \<not> overlaps (snd (nets ! i')) (snd (nets ! j'))) \<and>
            validate_cidr_ranges (template_of entries) =
              (Inr False, [Validating,
                 CIDR_overlap (fst (nets ! i)) (snd (nets ! i)) (fst (nets ! j)) (snd (nets ! j))]))
       \<or> ((\<forall>i j. i < j \<and> j < length nets \<longrightarrow> \<not> overlaps (snd (nets ! i)) (snd (nets ! j))) \<and>
            validate_cidr_ranges (template_of entries) =
              (Inr True, [Validating, Valid_non_overlapping]))"
  using scan_cases [of nets]
proof (elim disjE exE conjE)
  assume "outer 0 nets = (all_pairs (length nets), None)"
    and "\<forall>a b. a < b \<and> b < length nets \<longrightarrow> \<not> overlaps (snd (nets ! a)) (snd (nets ! b))"
  then show ?thesis by (simp add: validate_template_of [OF assms])
next
  fix a b
  assume "a < b" "b < length nets" "overlaps (snd (nets ! a)) (snd (nets ! b))"
    "\<forall>a' b'. a' < b' \<and> b' < length nets \<and> (a' < a \<or> (a' = a \<and> b' < b))
            \<longrightarrow> \<not> overlaps (snd (nets ! a')) (snd (nets ! b'))"
    and out: "outer 0 nets = (rows 0 a (length nets) @ map (Pair a) [a + 1..<b + 1],
          Some (CIDR_overlap (fst (nets ! a)) (snd (nets ! a)) (fst (nets ! b)) (snd (nets ! b))))"
  moreover from out have "validate_cidr_ranges (template_of entries) =
      (Inr False, [Validating,
         CIDR_overlap (fst (nets ! a)) (snd (nets ! a)) (fst (nets ! b)) (snd (nets ! b))])"
    by (simp add: validate_template_of [OF assms])
  ultimately show ?thesis by blast
qed

theorem first_conflict_reported_witness:
  "list_all2 parses_to
     [(''S1'', ''10.0.0.0/26''), (''S2'', ''10.0.0.64/26''), (''S3'', ''10.0.0.32/27'')]
     [(''S1'', \<lparr>network_address = 167772160, netmask = 4294967232, prefixlen = 26\<rparr>),
      (''S2'', \<lparr>network_address = 167772224, netmask = 4294967232, prefixlen = 26\<rparr>),
      (''S3'', \<lparr>network_address = 167772192, netmask = 4294967264, prefixlen = 27\<rparr>)]
   \<and> overlaps \<lparr>network_address = 167772160, netmask = 4294967232, prefixlen = 26\<rparr>
              \<lparr>network_address = 167772192, netmask = 4294967264, prefixlen = 27\<rparr>
   \<and> fst (validate_cidr_ranges (template_of
        [(''S1'', ''10.0.0.0/26''), (''S2'', ''10.0.0.64/26''), (''S3'', ''10.0.0.32/27'')]))
      = Inr False"
proof -
  let ?E = "[(''S1'', ''10.0.0.0/26''), (''S2'', ''10.0.0.64/26''), (''S3'', ''10.0.0.32/27'')]"
  let ?N = "[(''S1'', \<lparr>network_address = 167772160, netmask = 4294967232, prefixlen = 26\<rparr>),
      (''S2'', \<lparr>network_address = 167772224, netmask = 4294967232, prefixlen = 26\<rparr>),
      (''S3'', \<lparr>network_address = 167772192, netmask = 4294967264, prefixlen = 27\<rparr>)]"
  have p: "list_all2 parses_to ?E ?N" by code_simp
  have ov: "overlaps \<lparr>network_address = 167772160, netmask = 4294967232, prefixlen = 26\<rparr>
              \<lparr>network_address = 167772192, netmask = 4294967264, prefixlen = 27\<rparr>"
    by code_simp
  have "\<not> (\<forall>i j. i < j \<and> j < length ?N \<longrightarrow> \<not> overlaps (snd (?N ! i)) (snd (?N ! j)))"
  proof
    assume "\<forall>i j. i < j \<and> j < length ?N \<longrightarrow> \<not> overlaps (snd (?N ! i)) (snd (?N ! j))"
    from this [rule_format, of 0 2] ov show False by simp
  qed
  with first_conflict_reported [OF p]
  have "fst (validate_cidr_ranges (template_of ?E)) = Inr False" by auto
  with p ov show ?thesis by blast
qed

text \<open>
  C2, as stated, fails: three subnets with the same CIDR overlap pairwise, and the only
  overlap line names A and B; the pair B, C is not reported.
\<close>

theorem all_conflicts_returned_counterexample:
  "list_all2 parses_to
     [(''A'', ''10.0.0.0/24''), (''B'', ''10.0.0.0/24''), (''C'', ''10.0.0.0/24'')]
     [(''A'', \<lparr>network_address = 167772160, netmask = 4294967040, prefixlen = 24\<rparr>),
      (''B'', \<lparr>network_address = 167772160, netmask = 4294967040, prefixlen = 24\<rparr>),
      (''C'', \<lparr>network_address = 167772160, netmask = 4294967040, prefixlen = 24\<rparr>)]
   \<and> overlaps \<lparr>network_address = 167772160, netmask = 4294967040, prefixlen = 24\<rparr>
              \<lparr>network_address = 167772160, netmask = 4294967040, prefixlen = 24\<rparr>
   \<and> validate_cidr_ranges (template_of
        [(''A'', ''10.0.0.0/24''), (''B'', ''10.0.0.0/24''), (''C'', ''10.0.0.0/24'')])
      = (Inr False, [Validating,
           CIDR_overlap ''A'' \<lparr>network_address = 167772160, netmask = 4294967040, prefixlen = 24\<rparr>
                        ''B'' \<lparr>network_address = 167772160, netmask = 4294967040, prefixlen = 24\<rparr>])
   \<and> CIDR_overlap ''B'' \<lparr>network_address = 167772160, netmask = 4294967040, prefixlen = 24\<rparr>
                   ''C'' \<lparr>network_address = 167772160, netmask = 4294967040, prefixlen = 24\<rparr>
       \<notin> set (snd (validate_cidr_ranges (template_of
        [(''A'', ''10.0.0.0/24''), (''B'', ''10.0.0.0/24''), (''C'', ''10.0.0.0/24'')])))"
  by code_simp






text \<open>
  C3. A CIDR string \<open>a.b.c.d/p\<close> of decimal numerals with an octet outside 0..255, a
  prefix length outside 0..32, or a host bit set beyond the prefix length does not parse:
  \<open>IPv4Network\<close> raises a \<open>ValueError\<close>. When the resources before it were collected
  without incident, the check prints the invalid-CIDR line with the label and the string
  of that subnet and returns \<open>False\<close>, whatever resources follow.
\<close>

theorem malformed_cidr_rejected:
  assumes "is_numeral a" "is_numeral b" "is_numeral c" "is_numeral d" "is_numeral p"
    and "numeral_value a < 0 \<or> 255 < numeral_value a
       \<or> numeral_value b < 0 \<or> 255 < numeral_value b
       \<or> numeral_value c < 0 \<or> 255 < numeral_value c
       \<or> numeral_value d < 0 \<or> 255 < numeral_value d
       \<or> numeral_value p < 0 \<or> 32 < numeral_value p
       \<or> address_value (numeral_value a) (numeral_value b) (numeral_value c) (numeral_value d)
             AND ip_int_from_prefix (numeral_value p)
           \<noteq> address_value (numeral_value a) (numeral_value b) (numeral_value c) (numeral_value d)"
  shows "(\<exists>e. IPv4Network (YStr (cidr_text a b c d p)) = Inl e \<and> is_ValueError e)
       \<and> (\<forall>before nets name after. collect before [] = Finished nets \<longrightarrow>
            validate_cidr_ranges
              (template (before @ (name, subnet (YStr (cidr_text a b c d p))) # after))
            = (Inr False, [Validating, Invalid_CIDR name (YStr (cidr_text a b c d p))]))"
proof -
  let ?s = "cidr_text a b c d p"
  have "\<nexists>net. IPv4Network (YStr ?s) = Inr net"
  proof
    assume "\<exists>net. IPv4Network (YStr ?s) = Inr net"
    then obtain net where "IPv4Network (YStr ?s) = Inr net" ..
    from IPv4Network_cidr_text [OF assms(1-5) this] assms(6) show False by linarith
  qed
  then obtain e where e: "IPv4Network (YStr ?s) = Inl e"
    by (cases "IPv4Network (YStr ?s)") auto
  have ve: "is_ValueError e" using e by (rule IPv4Network_error)
  have ne: "?s \<noteq> []" by (simp add: cidr_text_def)
  have "validate_cidr_ranges (template (before @ (name, subnet (YStr ?s)) # after))
      = (Inr False, [Validating, Invalid_CIDR name (YStr ?s)])"
    if "collect before [] = Finished nets" for before nets name after
    using that collect_invalid [OF e ne, of name after nets]
    by (simp add: validate_template collect_append)
  with e ve show ?thesis by blast
qed

theorem malformed_cidr_rejected_witness:
  "is_numeral ''10'' \<and> is_numeral ''0'' \<and> is_numeral ''1'' \<and> is_numeral ''24''
   \<and> address_value (numeral_value ''10'') (numeral_value ''0'') (numeral_value ''0'')
        (numeral_value ''1'') AND ip_int_from_prefix (numeral_value ''24'')
      \<noteq> address_value (numeral_value ''10'') (numeral_value ''0'') (numeral_value ''0'')
        (numeral_value ''1'')
   \<and> validate_cidr_ranges (template
        [(''S1'', subnet (YStr ''10.0.0.0/26'')),
         (''S2'', subnet (YStr ''10.0.0.1/24'')),
         (''S3'', subnet (YStr ''10.0.0.64/26''))])
      = (Inr False, [Validating, Invalid_CIDR ''S2'' (YStr ''10.0.0.1/24'')])"
proof -
  have n: "is_numeral ''10''" "is_numeral ''0''" "is_numeral ''1''" "is_numeral ''24''"
    by code_simp+
  have h: "address_value (numeral_value ''10'') (numeral_value ''0'') (numeral_value ''0'')
        (numeral_value ''1'') AND ip_int_from_prefix (numeral_value ''24'')
      \<noteq> address_value (numeral_value ''10'') (numeral_value ''0'') (numeral_value ''0'')
        (numeral_value ''1'')"
    by code_simp
  have t: "cidr_text ''10'' ''0'' ''0'' ''1'' ''24'' = ''10.0.0.1/24''"
    by (simp add: cidr_text_def)
  have c: "collect [(''S1'', subnet (YStr ''10.0.0.0/26''))] []
      = Finished [(''S1'', \<lparr>network_address = 167772160, netmask = 4294967232, prefixlen = 26\<rparr>)]"
    by code_simp
  from malformed_cidr_rejected [OF n(1) n(2) n(2) n(3) n(4), unfolded t] h
  have "\<forall>before nets name after. collect before [] = Finished nets \<longrightarrow>
      validate_cidr_ranges (template (before @ (name, subnet (YStr ''10.0.0.1/24'')) # after))
      = (Inr False, [Validating, Invalid_CIDR name (YStr ''10.0.0.1/24'')])"
    by blast
  from this [rule_format, OF c, of "''S2''" "[(''S3'', subnet (YStr ''10.0.0.64/26''))]"]
  show ?thesis using n h by simp
qed

text \<open>
  C10. Whenever the first loop finishes, \<open>subnet_cidrs\<close> holds exactly the resources of
  type \<open>AWS::EC2::Subnet\<close> with a true \<open>CidrBlock\<close>, in order, each with its parsed
  network. When every resource is a mapping, the check gives the same result and output as
  on those resources alone. A VPC resource is not among them: the check gives the same
  result with it and without it, whatever its \<open>CidrBlock\<close>.
\<close>

theorem only_subnets_with_cidr_checked:
  "(\<forall>nets. collect resources [] = Finished nets \<longrightarrow>
      list_all2 (\<lambda>(name, resource) (label, net).
          label = name \<and> IPv4Network (cidr_of resource) = Inr net)
        (filter (\<lambda>(name, resource). considered resource) resources) nets)
   \<and> ((\<forall>(name, resource) \<in> set resources. mappings resource) \<longrightarrow>
        validate_cidr_ranges (template resources)
        = validate_cidr_ranges
            (template (filter (\<lambda>(name, resource). considered resource) resources)))
   \<and> mappings (vpc cidr) \<and> \<not> considered (vpc cidr)
   \<and> validate_cidr_ranges (template (before @ (name, vpc cidr) # after))
     = validate_cidr_ranges (template (before @ after))"
proof (intro conjI allI impI)
  fix nets
  assume "collect resources [] = Finished nets"
  from collect_considered [OF this]
  show "list_all2 (\<lambda>(name, resource) (label, net).
          label = name \<and> IPv4Network (cidr_of resource) = Inr net)
        (filter (\<lambda>(name, resource). considered resource) resources) nets"
    by simp
next
  assume "\<forall>(name, resource) \<in> set resources. mappings resource"
  from collect_filter [OF this, of "[]"]
  show "validate_cidr_ranges (template resources)
        = validate_cidr_ranges
            (template (filter (\<lambda>(name, resource). considered resource) resources))"
    by (simp add: validate_template)
next
  show m: "mappings (vpc cidr)" by (simp add: mappings_def vpc_def)
  show c: "\<not> considered (vpc cidr)" by (simp add: considered_def vpc_def)
  have skip: "collect ((name, vpc cidr) # after) acc = collect after acc" for acc
    by (rule collect_skip [OF m c])
  have "collect (before @ (name, vpc cidr) # after) [] = collect (before @ after) []"
    by (simp only: collect_append skip)
  then show "validate_cidr_ranges (template (before @ (name, vpc cidr) # after))
     = validate_cidr_ranges (template (before @ after))"
    by (simp add: validate_template)
qed

theorem only_subnets_with_cidr_checked_witness:
  "mappings (vpc (YStr ''10.0.0.0/22'')) \<and> mappings (subnet (YStr ''10.0.0.0/26''))
   \<and> IPv4Network (YStr ''10.0.0.0/22'')
       = Inr \<lparr>network_address = 167772160, netmask = 4294966272, prefixlen = 22\<rparr>
   \<and> overlaps \<lparr>network_address = 167772160, netmask = 4294966272, prefixlen = 22\<rparr>
              \<lparr>network_address = 167772160, netmask = 4294967232, prefixlen = 26\<rparr>
   \<and> validate_cidr_ranges (template
        [(''VPC1'', vpc (YStr ''10.0.0.0/22'')), (''Subnet1'', subnet (YStr ''10.0.0.0/26''))])
      = (Inr True, [Validating, Valid_non_overlapping])"
proof -
  let ?R = "[(''VPC1'', vpc (YStr ''10.0.0.0/22'')), (''Subnet1'', subnet (YStr ''10.0.0.0/26''))]"
  have m: "mappings (vpc (YStr ''10.0.0.0/22''))" "mappings (subnet (YStr ''10.0.0.0/26''))"
    by code_simp+
  then have all: "\<forall>(name, resource) \<in> set ?R. mappings resource" by simp
  have f: "filter (\<lambda>(name, resource). considered resource) ?R
      = [(''Subnet1'', subnet (YStr ''10.0.0.0/26''))]"
    by code_simp
  have v: "validate_cidr_ranges (template [(''Subnet1'', subnet (YStr ''10.0.0.0/26''))])
      = (Inr True, [Validating, Valid_non_overlapping])"
    by code_simp
  have p: "IPv4Network (YStr ''10.0.0.0/22'')
       = Inr \<lparr>network_address = 167772160, netmask = 4294966272, prefixlen = 22\<rparr>"
    by code_simp
  have ov: "overlaps \<lparr>network_address = 167772160, netmask = 4294966272, prefixlen = 22\<rparr>
              \<lparr>network_address = 167772160, netmask = 4294967232, prefixlen = 26\<rparr>"
    by code_simp
  from only_subnets_with_cidr_checked [of ?R] all
  have "validate_cidr_ranges (template ?R)
      = validate_cidr_ranges (template (filter (\<lambda>(name, resource). considered resource) ?R))"
    by blast
  with f v have "validate_cidr_ranges (template ?R) = (Inr True, [Validating, Valid_non_overlapping])"
    by simp
  with m p ov show ?thesis by blast
qed

end
